theory Spec2Isabelle
  imports Main "HOL-Library.Word"
begin

section \<open>The circuit breaker of shirokovnv/circuit_breaker\<close>

text \<open>
  A shallow embedding of the package \<^verbatim>\<open>circuit_breaker\<close>: the counters, the guard
  and its single public operation \<^verbatim>\<open>Execute\<close>.

  \<^item> The counters are \<^verbatim>\<open>uint32\<close>: 32-bit words, \<open>+\<close> wraps around as Go's does.
  \<^item> A \<^verbatim>\<open>time.Time\<close> is an integer number of nanoseconds counted from the zero
    instant \<^verbatim>\<open>time.Time{}\<close>, a \<^verbatim>\<open>time.Duration\<close> an integer number of nanoseconds;
    \<^verbatim>\<open>t.Add(d)\<close> is \<open>t + d\<close> and \<^verbatim>\<open>t.Before(u)\<close> is \<open>t < u\<close>.
  \<^item> The mutex is held over the whole of \<^verbatim>\<open>Execute\<close>, so the calls on one guard
    are serialised: a call is a function from the guard before to the guard after.
  \<^item> The calls that \<^verbatim>\<open>Execute\<close> makes to code supplied by the caller (the action,
    \<^verbatim>\<open>readyToTrip\<close>, \<^verbatim>\<open>onStateChange\<close>) are returned as a list of events, in the
    order in which they happen.
\<close>

subsection \<open>Data\<close>

type_synonym Time = int
type_synonym Duration = int

datatype State = StateClosed | StateOpen | StateHalfOpen

definition defaultConsecutiveFailures :: "32 word" where
  "defaultConsecutiveFailures = 5"

definition second :: Duration where
  "second = 1000000000"

definition defaultTimeout :: Duration where
  "defaultTimeout = 60 * second"

text \<open>
  The two sentinel errors of the package are values of Go's one \<^verbatim>\<open>error\<close> type, and
  so is whatever the action returns: \<open>ErrOther\<close> stands for every other error value.
\<close>

datatype 'e error = ErrTooManyRequests | ErrOpenState | ErrOther 'e

record Counts =
  Requests :: "32 word"
  TotalSuccesses :: "32 word"
  TotalFailures :: "32 word"
  ConsecutiveSuccesses :: "32 word"
  ConsecutiveFailures :: "32 word"

text \<open>
  The guard. \<open>readyToTrip\<close> is a function that is never nil once \<^verbatim>\<open>NewCircuitBreaker\<close>
  has run; \<open>onStateChange\<close> may be nil (\<open>None\<close>). The two hooks are pure functions
  that return, as the specification takes them; only the action may panic.
\<close>

record CircuitBreaker =
  name :: string
  requestThreshold :: "32 word"
  timeout :: Duration
  readyToTrip :: "Counts \<Rightarrow> bool"
  onStateChange :: "(string \<Rightarrow> State \<Rightarrow> State \<Rightarrow> unit) option"
  state :: State
  counts :: Counts
  expiredAt :: Time

record Config =
  Name :: string
  RequestThreshold :: "32 word"
  Timeout :: Duration
  ReadyToTrip :: "(Counts \<Rightarrow> bool) option"
  OnStateChange :: "(string \<Rightarrow> State \<Rightarrow> State \<Rightarrow> unit) option"

text \<open>
  What \<^verbatim>\<open>Execute\<close> calls, in order. \<open>OnStateChangeCalled n from to s c\<close> is the call
  \<^verbatim>\<open>cb.onStateChange(n, from, to)\<close>, made while the guard's fields \<^verbatim>\<open>state\<close> and
  \<^verbatim>\<open>counts\<close> hold \<open>s\<close> and \<open>c\<close>.
\<close>

datatype event =
  ReqCalled
  | ReadyToTripCalled Counts
  | OnStateChangeCalled string State State State Counts

subsection \<open>The counters\<close>

definition zeroCounts :: Counts where
  "zeroCounts = \<lparr>Requests = 0, TotalSuccesses = 0, TotalFailures = 0,
     ConsecutiveSuccesses = 0, ConsecutiveFailures = 0\<rparr>"

definition zeroTime :: Time where
  "zeroTime = 0"

definition Before :: "Time \<Rightarrow> Time \<Rightarrow> bool" where
  "Before t u = (t < u)"

definition Counts_onRequest :: "Counts \<Rightarrow> Counts" where
  "Counts_onRequest c = c\<lparr>Requests := Requests c + 1\<rparr>"

definition Counts_onSuccess :: "Counts \<Rightarrow> Counts" where
  "Counts_onSuccess c =
     c\<lparr>TotalSuccesses := TotalSuccesses c + 1,
       ConsecutiveSuccesses := ConsecutiveSuccesses c + 1,
       ConsecutiveFailures := 0\<rparr>"

definition Counts_onFailure :: "Counts \<Rightarrow> Counts" where
  "Counts_onFailure c =
     c\<lparr>TotalFailures := TotalFailures c + 1,
       ConsecutiveFailures := ConsecutiveFailures c + 1,
       ConsecutiveSuccesses := 0\<rparr>"

definition Counts_reset :: "Counts \<Rightarrow> Counts" where
  "Counts_reset c =
     c\<lparr>Requests := 0, TotalSuccesses := 0, TotalFailures := 0,
       ConsecutiveSuccesses := 0, ConsecutiveFailures := 0\<rparr>"

subsection \<open>The guard\<close>

definition defaultReadyToTrip :: "Counts \<Rightarrow> bool" where
  "defaultReadyToTrip c = (ConsecutiveFailures c > defaultConsecutiveFailures)"

definition NewCircuitBreaker :: "Config \<Rightarrow> CircuitBreaker" where
  "NewCircuitBreaker cfg =
     \<lparr>name = Name cfg,
      requestThreshold = RequestThreshold cfg,
      timeout = (if Timeout cfg = 0 then defaultTimeout else Timeout cfg),
      readyToTrip = (case ReadyToTrip cfg of None \<Rightarrow> defaultReadyToTrip | Some p \<Rightarrow> p),
      onStateChange = OnStateChange cfg,
      state = StateClosed,
      counts = zeroCounts,
      expiredAt = zeroTime\<rparr>"

text \<open>
  \<^verbatim>\<open>setState\<close>: nothing when the state is the current one; otherwise the new state is
  stored, then the observer (if there is one) is called, then the counters are reset.
\<close>

definition setState :: "CircuitBreaker \<Rightarrow> State \<Rightarrow> CircuitBreaker \<times> event list" where
  "setState cb st =
     (if state cb = st then (cb, [])
      else
        let prev = state cb;
            cb1 = cb\<lparr>state := st\<rparr>;
            evs = (case onStateChange cb1 of
                     None \<Rightarrow> []
                   | Some f \<Rightarrow> [OnStateChangeCalled (name cb1) prev st (state cb1) (counts cb1)])
        in (cb1\<lparr>counts := Counts_reset (counts cb1)\<rparr>, evs))"

definition onSuccess :: "CircuitBreaker \<Rightarrow> State \<Rightarrow> CircuitBreaker \<times> event list" where
  "onSuccess cb st =
     (case st of
        StateClosed \<Rightarrow> (cb\<lparr>counts := Counts_onSuccess (counts cb)\<rparr>, [])
      | StateHalfOpen \<Rightarrow>
          (let cb1 = cb\<lparr>counts := Counts_onSuccess (counts cb)\<rparr>
           in if ConsecutiveSuccesses (counts cb1) \<ge> requestThreshold cb1
              then setState cb1 StateClosed
              else (cb1, []))
      | StateOpen \<Rightarrow> (cb, []))"

text \<open>\<open>now\<close> is what \<^verbatim>\<open>time.Now()\<close> returns inside \<^verbatim>\<open>onFailure\<close>.\<close>

definition onFailure :: "CircuitBreaker \<Rightarrow> State \<Rightarrow> Time \<Rightarrow> CircuitBreaker \<times> event list" where
  "onFailure cb st now =
     (case st of
        StateClosed \<Rightarrow>
          (let cb1 = cb\<lparr>counts := Counts_onFailure (counts cb)\<rparr>
           in if readyToTrip cb1 (counts cb1)
              then (let (cb2, evs) = setState (cb1\<lparr>expiredAt := now + timeout cb1\<rparr>) StateOpen
                    in (cb2, ReadyToTripCalled (counts cb1) # evs))
              else (cb1, [ReadyToTripCalled (counts cb1)]))
      | StateHalfOpen \<Rightarrow> setState (cb\<lparr>expiredAt := now + timeout cb\<rparr>) StateOpen
      | StateOpen \<Rightarrow> (cb, []))"

text \<open>
  What a call of the action, or of \<^verbatim>\<open>Execute\<close>, ends in: it returns a result
  (\<open>None\<close> for nil) and an error (\<open>None\<close> for nil), or it panics. \<open>returnedErr\<close> is
  the error handed back, none after a panic.
\<close>

datatype ('r, 'e) outcome = Returns "'r option" "'e error option" | Panics

fun returnedErr :: "('r, 'e) outcome \<Rightarrow> 'e error option" where
  "returnedErr (Returns result err) = err"
| "returnedErr Panics = None"

text \<open>
  \<^verbatim>\<open>Execute\<close>. \<open>now\<close> is the clock read by the deadline check, \<open>req\<close> is what
  the action does when it is called, \<open>later\<close> is the clock read by \<^verbatim>\<open>onFailure\<close>.
  The outcome is the guard afterwards, the calls made, and how \<^verbatim>\<open>Execute\<close> ends. When
  the action panics, the request has been counted, neither \<^verbatim>\<open>onSuccess\<close> nor
  \<^verbatim>\<open>onFailure\<close> runs, the deferred \<^verbatim>\<open>Unlock\<close> releases the guard, and the panic goes
  on to the caller of \<^verbatim>\<open>Execute\<close>.
\<close>

definition Execute ::
  "CircuitBreaker \<Rightarrow> Time \<Rightarrow> ('r, 'e) outcome \<Rightarrow> Time
     \<Rightarrow> CircuitBreaker \<times> event list \<times> ('r, 'e) outcome" where
  "Execute cb now req later =
     (let (cb1, evs1) =
            (if state cb = StateOpen \<and> Before (expiredAt cb) now
             then setState (cb\<lparr>expiredAt := zeroTime\<rparr>) StateHalfOpen
             else (cb, []))
      in if state cb1 = StateOpen then (cb1, evs1, Returns None (Some ErrOpenState))
         else if state cb1 = StateHalfOpen \<and> Requests (counts cb1) \<ge> requestThreshold cb1
         then (cb1, evs1, Returns None (Some ErrTooManyRequests))
         else
           let cb2 = cb1\<lparr>counts := Counts_onRequest (counts cb1)\<rparr>
           in case req of
                Panics \<Rightarrow> (cb2, evs1 @ [ReqCalled], Panics)
              | Returns result err \<Rightarrow>
                  let (cb3, evs3) = (if err \<noteq> None then onFailure cb2 (state cb2) later
                                     else onSuccess cb2 (state cb2))
                  in (cb3, evs1 @ ReqCalled # evs3, Returns result err))"

subsection \<open>Sequences of calls\<close>

text \<open>
  One call of \<^verbatim>\<open>Execute\<close> is given by the two clock readings and the action's
  outcome. \<open>ExecuteAll\<close> is the guard after a sequence of calls, \<open>ExecuteLog\<close> what
  each call of the sequence left, made and ended in. A call that ends in a panic is
  followed by the next one: the caller has recovered, and the guard is unlocked.
\<close>

type_synonym ('r, 'e) call = "Time \<times> ('r, 'e) outcome \<times> Time"

fun ExecuteAll :: "CircuitBreaker \<Rightarrow> ('r, 'e) call list \<Rightarrow> CircuitBreaker" where
  "ExecuteAll cb [] = cb"
| "ExecuteAll cb ((now, req, later) # cs) = ExecuteAll (fst (Execute cb now req later)) cs"

fun ExecuteLog ::
  "CircuitBreaker \<Rightarrow> ('r, 'e) call list
     \<Rightarrow> (CircuitBreaker \<times> event list \<times> ('r, 'e) outcome) list" where
  "ExecuteLog cb [] = []"
| "ExecuteLog cb ((now, req, later) # cs) =
     Execute cb now req later # ExecuteLog (fst (Execute cb now req later)) cs"

subsection \<open>Invariants of the reachable guards\<close>



text \<open>
  The same sum read in unbounded naturals, together with a bound \<open>k\<close> on the
  requests counted: it holds as long as no counter has wrapped around.
\<close>

definition natCountsOk :: "nat \<Rightarrow> Counts \<Rightarrow> bool" where
  "natCountsOk k c =
     (unat (Requests c) \<le> k \<and>
      unat (TotalSuccesses c) + unat (TotalFailures c) = unat (Requests c))"

text \<open>Outside \<open>StateOpen\<close> the deadline is the zero instant.\<close>

definition deadlineOk :: "CircuitBreaker \<Rightarrow> bool" where
  "deadlineOk cb = (state cb = StateOpen \<or> expiredAt cb = zeroTime)"


subsection \<open>Concrete guards and calls\<close>

text \<open>
  A configuration that trips on the first failure, with a cooldown of ten
  nanoseconds and an observer; a failing and a succeeding action.
\<close>

definition tripConfig :: "32 word \<Rightarrow> Config" where
  "tripConfig n =
     \<lparr>Name = ''guard'', RequestThreshold = n, Timeout = 10,
      ReadyToTrip = Some (\<lambda>c. ConsecutiveFailures c > 0),
      OnStateChange = Some (\<lambda>n from to. ())\<rparr>"

definition failing :: "(nat, string) outcome" where
  "failing = Returns None (Some (ErrOther ''service error''))"

definition succeeding :: "(nat, string) outcome" where
  "succeeding = Returns (Some 7) None"


text \<open>The guard of \<open>tripConfig n\<close> after one failure at time 5: open until 15.\<close>

definition trippedGuard :: "32 word \<Rightarrow> CircuitBreaker" where
  "trippedGuard n = ExecuteAll (NewCircuitBreaker (tripConfig n)) [(0, failing, 5)]"


text \<open>
  The fresh guard of \<open>tripConfig 2\<close> as \<^verbatim>\<open>Execute\<close> holds it when a first, failing
  call has been counted and \<^verbatim>\<open>setState\<close> is about to run.
\<close>

definition countedGuard :: CircuitBreaker where
  "countedGuard =
     (NewCircuitBreaker (tripConfig 2))\<lparr>counts := Counts_onFailure (Counts_onRequest zeroCounts)\<rparr>"


text \<open>
  The guard of \<open>tripConfig n\<close> after a failure at time 5 and a success at time 16:
  for \<open>n = 2\<close> it is probing, with one success counted.
\<close>

definition probingGuard :: "32 word \<Rightarrow> CircuitBreaker" where
  "probingGuard n =
     ExecuteAll (NewCircuitBreaker (tripConfig n)) [(0, failing, 5), (16, succeeding, 16)]"

text \<open>A failure, a call during the cooldown, and calls after it.\<close>

definition exampleCalls :: "(nat, string) call list" where
  "exampleCalls =
     [(0, failing, 5), (10, succeeding, 10), (16, succeeding, 16), (17, succeeding, 17),
      (18, failing, 18)]"





section \<open>One call, case by case\<close>

text \<open>
  What \<open>setState\<close> and \<open>Execute\<close> compute in each state, as equations obtained
  by unfolding the definitions. The properties below are derived from them.
\<close>

lemma Counts_reset_zero: "Counts_reset c = zeroCounts"
  by (simp add: Counts_reset_def zeroCounts_def)

lemma setState_same: "state cb = st \<Longrightarrow> setState cb st = (cb, [])"
  by (simp add: setState_def)

lemma setState_diff:
  "state cb \<noteq> st \<Longrightarrow>
   setState cb st =
     (cb\<lparr>state := st, counts := zeroCounts\<rparr>,
      case onStateChange cb of
        None \<Rightarrow> []
      | Some f \<Rightarrow> [OnStateChangeCalled (name cb) (state cb) st st (counts cb)])"
  by (simp add: setState_def Let_def Counts_reset_zero split: option.splits)

lemma Execute_open_early:
  "state cb = StateOpen \<Longrightarrow> \<not> expiredAt cb < now \<Longrightarrow>
   Execute cb now req later = (cb, [], Returns None (Some ErrOpenState))"
  by (simp add: Execute_def Before_def)

lemma Execute_open_late:
  "state cb = StateOpen \<Longrightarrow> expiredAt cb < now \<Longrightarrow>
   Execute cb now req later =
     (let (cb', evs, ret) =
            Execute (cb\<lparr>expiredAt := zeroTime, state := StateHalfOpen, counts := zeroCounts\<rparr>)
              now req later
      in (cb',
          (case onStateChange cb of
             None \<Rightarrow> []
           | Some f \<Rightarrow> [OnStateChangeCalled (name cb) StateOpen StateHalfOpen StateHalfOpen (counts cb)])
          @ evs, ret))"
  by (cases req)
    (simp_all add: Execute_def Before_def setState_diff Let_def split: prod.splits option.splits)


lemma Execute_closed_failure:
  "state cb = StateClosed \<Longrightarrow> err \<noteq> None \<Longrightarrow>
   Execute cb now (Returns res err) later =
     (let c = Counts_onFailure (Counts_onRequest (counts cb))
      in if readyToTrip cb c
         then (cb\<lparr>expiredAt := later + timeout cb, state := StateOpen, counts := zeroCounts\<rparr>,
               ReqCalled # ReadyToTripCalled c #
                 (case onStateChange cb of
                    None \<Rightarrow> []
                  | Some f \<Rightarrow> [OnStateChangeCalled (name cb) StateClosed StateOpen StateOpen c]),
               Returns res err)
         else (cb\<lparr>counts := c\<rparr>, [ReqCalled, ReadyToTripCalled c], Returns res err))"
  by (simp add: Execute_def onFailure_def setState_diff Let_def not_le split: option.splits)

lemma Execute_halfopen_full:
  "state cb = StateHalfOpen \<Longrightarrow> requestThreshold cb \<le> Requests (counts cb) \<Longrightarrow>
   Execute cb now req later = (cb, [], Returns None (Some ErrTooManyRequests))"
  by (simp add: Execute_def)

lemma Execute_halfopen_success:
  "state cb = StateHalfOpen \<Longrightarrow> Requests (counts cb) < requestThreshold cb \<Longrightarrow>
   Execute cb now (Returns res None) later =
     (let c = Counts_onSuccess (Counts_onRequest (counts cb))
      in if requestThreshold cb \<le> ConsecutiveSuccesses c
         then (cb\<lparr>state := StateClosed, counts := zeroCounts\<rparr>,
               ReqCalled #
                 (case onStateChange cb of
                    None \<Rightarrow> []
                  | Some f \<Rightarrow> [OnStateChangeCalled (name cb) StateHalfOpen StateClosed StateClosed c]),
               Returns res None)
         else (cb\<lparr>counts := c\<rparr>, [ReqCalled], Returns res None))"
  by (auto simp add: Execute_def onSuccess_def setState_diff Let_def split: option.splits)

lemma Execute_halfopen_failure:
  "state cb = StateHalfOpen \<Longrightarrow> Requests (counts cb) < requestThreshold cb \<Longrightarrow> err \<noteq> None \<Longrightarrow>
   Execute cb now (Returns res err) later =
     (cb\<lparr>expiredAt := later + timeout cb, state := StateOpen, counts := zeroCounts\<rparr>,
      ReqCalled #
        (case onStateChange cb of
           None \<Rightarrow> []
         | Some f \<Rightarrow> [OnStateChangeCalled (name cb) StateHalfOpen StateOpen StateOpen
                        (Counts_onRequest (counts cb))]),
      Returns res err)"
  by (simp add: Execute_def onFailure_def setState_diff Let_def not_le split: option.splits)


lemma Execute_halfopen_panic:
  "state cb = StateHalfOpen \<Longrightarrow> Requests (counts cb) < requestThreshold cb \<Longrightarrow>
   Execute cb now Panics later =
     (cb\<lparr>counts := Counts_onRequest (counts cb)\<rparr>, [ReqCalled], Panics)"
  by (simp add: Execute_def not_le)

lemma trippedGuard_eq:
  "trippedGuard n = (NewCircuitBreaker (tripConfig n))\<lparr>expiredAt := 15, state := StateOpen\<rparr>"
  by (simp add: trippedGuard_def NewCircuitBreaker_def tripConfig_def failing_def
      Execute_closed_failure Counts_onFailure_def Counts_onRequest_def zeroCounts_def Let_def)

lemma counts_New: "counts (NewCircuitBreaker cfg) = zeroCounts"
  by (simp add: NewCircuitBreaker_def)

section \<open>What every call preserves\<close>

text \<open>
  \<^verbatim>\<open>Execute\<close> never writes the configuration, and it keeps the invariants of the
  reachable guards; a property kept by every call holds after any sequence of calls.
\<close>

lemma Execute_config:
  "requestThreshold (fst (Execute cb now req later)) = requestThreshold cb"
  "timeout (fst (Execute cb now req later)) = timeout cb"
  "name (fst (Execute cb now req later)) = name cb"
  "onStateChange (fst (Execute cb now req later)) = onStateChange cb"
  by (auto simp: Execute_def setState_def onSuccess_def onFailure_def Let_def
      split: prod.splits State.splits if_splits option.splits outcome.splits)

lemma Execute_open_late_parts:
  assumes "state cb = StateOpen" and "expiredAt cb < now"
  shows "fst (Execute cb now req later) =
           fst (Execute (cb\<lparr>expiredAt := zeroTime, state := StateHalfOpen, counts := zeroCounts\<rparr>)
                  now req later)"
    and "set (fst (snd (Execute cb now req later))) \<inter> {ReqCalled} =
           set (fst (snd (Execute
                  (cb\<lparr>expiredAt := zeroTime, state := StateHalfOpen, counts := zeroCounts\<rparr>)
                  now req later))) \<inter> {ReqCalled}"
    and "snd (snd (Execute cb now req later)) =
           snd (snd (Execute
                  (cb\<lparr>expiredAt := zeroTime, state := StateHalfOpen, counts := zeroCounts\<rparr>)
                  now req later))"
  using assms by (auto simp add: Execute_open_late split_beta split: option.splits)

lemma ExecuteAll_invariant:
  assumes "P cb"
    and "\<And>cb now (req :: ('r, 'e) outcome) later. P cb \<Longrightarrow> P (fst (Execute cb now req later))"
  shows "P (ExecuteAll cb (calls :: ('r, 'e) call list))"
  using assms(1)
proof (induction cb calls rule: ExecuteAll.induct)
  case (1 cb)
  then show ?case by simp
next
  case (2 cb now req later cs)
  from 2(2) have "P (fst (Execute cb now req later))" by (rule assms(2))
  then show ?case using 2(1) by simp
qed

lemma ExecuteLog_invariant:
  assumes "P cb"
    and "\<And>cb now (req :: ('r, 'e) outcome) later. P cb \<Longrightarrow> P (fst (Execute cb now req later))"
    and "\<And>cb now (req :: ('r, 'e) outcome) later. P cb \<Longrightarrow> Q (Execute cb now req later)"
  shows "\<forall>e \<in> set (ExecuteLog cb (calls :: ('r, 'e) call list)). Q e"
  using assms(1)
proof (induction cb calls rule: ExecuteLog.induct)
  case (1 cb)
  then show ?case by simp
next
  case (2 cb now req later cs)
  from 2(2) have "P (fst (Execute cb now req later))" by (rule assms(2))
  then have "\<forall>e \<in> set (ExecuteLog (fst (Execute cb now req later)) cs). Q e" by (rule 2(1))
  moreover from 2(2) have "Q (Execute cb now req later)" by (rule assms(3))
  ultimately show ?case by simp
qed

lemma ExecuteAll_requestThreshold:
  "requestThreshold (ExecuteAll cb calls) = requestThreshold cb"
  by (induction cb calls rule: ExecuteAll.induct) (simp_all add: Execute_config)

lemma deadlineOk_Execute: "deadlineOk cb \<Longrightarrow> deadlineOk (fst (Execute cb now req later))"
  by (auto simp: Execute_def setState_def onSuccess_def onFailure_def Let_def deadlineOk_def
      split: prod.splits State.splits if_splits option.splits outcome.splits)

lemma deadlineOk_reachable: "deadlineOk (ExecuteAll (NewCircuitBreaker cfg) calls)"
proof (rule ExecuteAll_invariant [where P = deadlineOk])
  show "deadlineOk (NewCircuitBreaker cfg)"
    by (simp add: deadlineOk_def NewCircuitBreaker_def)
qed (rule deadlineOk_Execute)


lemma Execute_panics_events:
  "snd (snd (Execute cb now req later)) = Panics \<Longrightarrow>
   ReqCalled \<in> set (fst (snd (Execute cb now req later)))"
  by (auto simp add: Execute_def Let_def split_beta split: if_splits outcome.splits)


text \<open>
  Each call counts at most one request, so for fewer than \<open>2 ^ 32\<close> calls the totals
  add up to the requests as natural numbers too.
\<close>

lemma natCountsOk_Execute:
  "natCountsOk k (counts cb) \<Longrightarrow> Suc k < 2 ^ 32 \<Longrightarrow>
   snd (snd (Execute cb now req later)) \<noteq> Panics \<Longrightarrow>
   natCountsOk (Suc k) (counts (fst (Execute cb now req later)))"
  by (auto simp: Execute_def setState_def onSuccess_def onFailure_def Let_def natCountsOk_def
      Counts_onRequest_def Counts_onSuccess_def Counts_onFailure_def Counts_reset_def
      unat_word_ariths
      split: prod.splits State.splits if_splits option.splits outcome.splits)

lemma natCountsOk_ExecuteAll:
  "natCountsOk k (counts cb) \<Longrightarrow> k + length calls < 2 ^ 32 \<Longrightarrow>
   \<forall>(cb', evs, ret) \<in> set (ExecuteLog cb calls). ret \<noteq> Panics \<Longrightarrow>
   natCountsOk (k + length calls) (counts (ExecuteAll cb calls))"
proof (induction cb calls arbitrary: k rule: ExecuteAll.induct)
  case (1 cb)
  then show ?case by simp
next
  case (2 cb now req later cs)
  from 2(3) have "Suc k < 2 ^ 32" by simp
  moreover from 2(4) have "snd (snd (Execute cb now req later)) \<noteq> Panics"
    by (simp add: split_beta)
  ultimately have "natCountsOk (Suc k) (counts (fst (Execute cb now req later)))"
    using 2(2) by (simp add: natCountsOk_Execute)
  moreover from 2(3) have "Suc k + length cs < 2 ^ 32" by simp
  moreover from 2(4)
  have "\<forall>(cb', evs, ret) \<in> set (ExecuteLog (fst (Execute cb now req later)) cs). ret \<noteq> Panics"
    by simp
  ultimately have "natCountsOk (Suc k + length cs)
      (counts (ExecuteAll (fst (Execute cb now req later)) cs))"
    by (rule 2(1))
  then show ?case by simp
qed

lemma counters_sum_unbounded:
  assumes "length calls < 2 ^ 32"
    and "\<forall>(cb', evs, ret) \<in> set (ExecuteLog (NewCircuitBreaker cfg) calls). ret \<noteq> Panics"
  shows "unat (TotalSuccesses (counts (ExecuteAll (NewCircuitBreaker cfg) calls))) +
         unat (TotalFailures (counts (ExecuteAll (NewCircuitBreaker cfg) calls))) =
         unat (Requests (counts (ExecuteAll (NewCircuitBreaker cfg) calls)))"
proof -
  have "natCountsOk 0 (counts (NewCircuitBreaker cfg))"
    by (simp add: natCountsOk_def counts_New zeroCounts_def)
  from natCountsOk_ExecuteAll [OF this, of calls] assms show ?thesis
    by (simp add: natCountsOk_def)
qed





text \<open>Which calls can appear among the events of one call of \<^verbatim>\<open>Execute\<close>.\<close>

lemma setState_events:
  "ReadyToTripCalled c \<notin> set (snd (setState cb st))" "ReqCalled \<notin> set (snd (setState cb st))"
  by (simp_all add: setState_def Let_def split: option.splits)

lemma onSuccess_events:
  "ReadyToTripCalled c \<notin> set (snd (onSuccess cb st))" "ReqCalled \<notin> set (snd (onSuccess cb st))"
  by (simp_all add: onSuccess_def Let_def setState_events split: State.splits)

lemma onFailure_events:
  "ReadyToTripCalled c \<in> set (snd (onFailure cb st later)) \<Longrightarrow> st = StateClosed"
  "ReqCalled \<notin> set (snd (onFailure cb st later))"
  by (simp_all add: onFailure_def Let_def setState_events split_beta split: State.splits if_splits)

lemma ReadyToTripCalled_returns:
  assumes "ReadyToTripCalled c \<in> set (fst (snd (Execute cb now (Returns res err) later)))"
  shows "state cb = StateClosed" and "err \<noteq> None"
proof -
  show "state cb = StateClosed"
  proof (cases "state cb")
    case StateOpen
    with assms show ?thesis
      by (cases "expiredAt cb < now")
        (auto simp add: Execute_open_early Execute_def Before_def split_beta Let_def
          setState_events onSuccess_events setState_diff dest: onFailure_events(1)
          split: if_splits)
  next
    case StateHalfOpen
    with assms show ?thesis
      by (auto simp add: Execute_def Let_def split_beta onSuccess_events
          dest: onFailure_events(1) split: if_splits)
  qed simp
  from assms show "err \<noteq> None"
    by (auto simp add: Execute_def Let_def split_beta setState_events onSuccess_events
        split: if_splits)
qed

lemma ReadyToTripCalled_only:
  assumes "ReadyToTripCalled c \<in> set (fst (snd (Execute cb now req later)))"
  shows "state cb = StateClosed" and "\<exists>res e. req = Returns res (Some e)"
proof -
  have "req \<noteq> Panics"
    using assms
    by (auto simp add: Execute_def Let_def split_beta setState_events split: if_splits)
  then obtain res err where r: "req = Returns res err"
    by (cases req) auto
  from assms show "state cb = StateClosed"
    unfolding r by (rule ReadyToTripCalled_returns)
  from assms have "err \<noteq> None"
    unfolding r by (rule ReadyToTripCalled_returns)
  with r show "\<exists>res e. req = Returns res (Some e)"
    by auto
qed

text \<open>The fields of a fresh guard, and the probing example guard in closed form.\<close>

lemma New_fields:
  "state (NewCircuitBreaker cfg) = StateClosed"
  "requestThreshold (NewCircuitBreaker cfg) = RequestThreshold cfg"
  "expiredAt (NewCircuitBreaker cfg) = zeroTime"
  "name (NewCircuitBreaker cfg) = Name cfg"
  "onStateChange (NewCircuitBreaker cfg) = OnStateChange cfg"
  by (simp_all add: NewCircuitBreaker_def)

lemma probingGuard_eq:
  "probingGuard 2 =
     (NewCircuitBreaker (tripConfig 2))\<lparr>state := StateHalfOpen,
        counts := Counts_onSuccess (Counts_onRequest zeroCounts)\<rparr>"
proof -
  have "probingGuard 2 = fst (Execute (trippedGuard 2) 16 succeeding 16)"
    by (simp add: probingGuard_def trippedGuard_def)
  also have "\<dots> = fst (Execute ((trippedGuard 2)\<lparr>expiredAt := zeroTime, state := StateHalfOpen,
        counts := zeroCounts\<rparr>) 16 succeeding 16)"
    by (rule Execute_open_late_parts) (simp_all add: trippedGuard_eq)
  also have "\<dots> = (NewCircuitBreaker (tripConfig 2))\<lparr>state := StateHalfOpen,
        counts := Counts_onSuccess (Counts_onRequest zeroCounts)\<rparr>"
    by (simp add: succeeding_def Execute_halfopen_success trippedGuard_eq NewCircuitBreaker_def
        tripConfig_def zeroCounts_def Counts_onSuccess_def Counts_onRequest_def Let_def
        word_le_nat_alt zeroTime_def)
  finally show ?thesis .
qed

text \<open>
  Admission: a call is rejected at the cap, or admitted, in which case the action runs
  once and its outcome is returned.
\<close>

lemma count_ReqCalled:
  "count_list (snd (setState cb st)) ReqCalled = 0"
  "count_list (snd (onSuccess cb st)) ReqCalled = 0"
  "count_list (snd (onFailure cb st later)) ReqCalled = 0"
  by (simp_all add: count_list_0_iff setState_events onSuccess_events onFailure_events)

lemma Execute_rejected_cap:
  assumes "(state cb = StateHalfOpen \<and> requestThreshold cb \<le> Requests (counts cb)) \<or>
           (state cb = StateOpen \<and> expiredAt cb < now \<and> requestThreshold cb = 0)"
  shows "fst (Execute cb now req later) =
           (if state cb = StateOpen
            then cb\<lparr>expiredAt := zeroTime, state := StateHalfOpen, counts := zeroCounts\<rparr>
            else cb)"
    and "ReqCalled \<notin> set (fst (snd (Execute cb now req later)))"
    and "snd (snd (Execute cb now req later)) = Returns None (Some ErrTooManyRequests)"
  using assms
  by (auto simp add: Execute_halfopen_full Execute_open_late split_beta zeroCounts_def
      split: option.splits)

lemma Execute_admitted:
  assumes "\<not> (state cb = StateOpen \<and> \<not> expiredAt cb < now)"
    and "\<not> (state cb = StateHalfOpen \<and> requestThreshold cb \<le> Requests (counts cb))"
    and "\<not> (state cb = StateOpen \<and> requestThreshold cb = 0)"
  shows "count_list (fst (snd (Execute cb now req later))) ReqCalled = 1"
    and "snd (snd (Execute cb now req later)) = req"
  using assms
  by (auto simp add: Execute_def Before_def Let_def split_beta count_ReqCalled setState_diff
      zeroCounts_def word_le_nat_alt unat_eq_0 split: if_splits option.splits outcome.splits)


text \<open>With a threshold of zero, a guard that is not closed stays so and admits nothing.\<close>

lemma lockout_step:
  assumes "requestThreshold cb = 0" and "state cb \<noteq> StateClosed"
  shows "requestThreshold (fst (Execute cb now req later)) = 0 \<and>
         state (fst (Execute cb now req later)) \<noteq> StateClosed \<and>
         ReqCalled \<notin> set (fst (snd (Execute cb now req later))) \<and>
         (snd (snd (Execute cb now req later)) = Returns None (Some ErrOpenState) \<or>
          snd (snd (Execute cb now req later)) = Returns None (Some ErrTooManyRequests))"
proof -
  have t: "requestThreshold (fst (Execute cb now req later)) = 0"
    using assms(1) by (simp add: Execute_config)
  consider (early) "state cb = StateOpen" "\<not> expiredAt cb < now"
    | (cap) "(state cb = StateHalfOpen \<and> requestThreshold cb \<le> Requests (counts cb)) \<or>
           (state cb = StateOpen \<and> expiredAt cb < now \<and> requestThreshold cb = 0)"
    using assms by (cases "state cb") auto
  then show ?thesis
  proof cases
    case early
    with t show ?thesis
      by (simp add: Execute_open_early)
  next
    case cap
    from Execute_rejected_cap [OF cap, of req later] assms(2) t show ?thesis
      by auto
  qed
qed




section \<open>Properties\<close>

subsection \<open>The counters\<close>




subsection \<open>The open state and its deadline\<close>

text \<open>
  C6. A call made while the guard is open and the clock has not reached the deadline
  returns \<open>ErrOpenState\<close> with a nil result; the action is not called (no call at all
  is made) and the guard, so its counters, state and deadline, is left as it was.
\<close>

theorem open_before_deadline_rejects:
  "state cb = StateOpen \<Longrightarrow> now < expiredAt cb \<Longrightarrow>
   Execute cb now req later = (cb, [], Returns None (Some ErrOpenState))"
  by (simp add: Execute_open_early)

theorem open_before_deadline_rejects_witness:
  "state (trippedGuard 2) = StateOpen \<and> 14 < expiredAt (trippedGuard 2) \<and>
   Execute (trippedGuard 2) 14 succeeding 20 = (trippedGuard 2, [], Returns None (Some ErrOpenState))"
proof -
  have s: "state (trippedGuard 2) = StateOpen" and d: "14 < expiredAt (trippedGuard 2)"
    by (simp_all add: trippedGuard_eq)
  from open_before_deadline_rejects [OF s d, of succeeding 20] s d show ?thesis by simp
qed

text \<open>
  C2, as claimed, fails: the guard tripped at time 5 with a cooldown of 10 has the
  deadline 15, and a call at time exactly 15 is rejected with \<open>ErrOpenState\<close>; the
  guard stays open and keeps its deadline, because \<^verbatim>\<open>expiredAt.Before(now)\<close> is strict.
\<close>

theorem deadline_equal_counterexample:
  "state (trippedGuard 2) = StateOpen \<and> expiredAt (trippedGuard 2) = 15 \<and>
   Execute (trippedGuard 2) 15 succeeding 20 = (trippedGuard 2, [], Returns None (Some ErrOpenState)) \<and>
   state (fst (Execute (trippedGuard 2) 15 succeeding 20)) \<noteq> StateHalfOpen \<and>
   expiredAt (fst (Execute (trippedGuard 2) 15 succeeding 20)) \<noteq> zeroTime"
proof -
  have s: "state (trippedGuard 2) = StateOpen" and d: "expiredAt (trippedGuard 2) = 15"
    by (simp_all add: trippedGuard_eq)
  then have "Execute (trippedGuard 2) 15 succeeding 20 =
      (trippedGuard 2, [], Returns None (Some ErrOpenState))"
    by (simp add: Execute_open_early)
  with s d show ?thesis
    by (simp add: zeroTime_def)
qed


text \<open>
  C2, amended. For a guard in \<open>StateOpen\<close>, a call at a time strictly after the
  deadline first clears the deadline and moves to \<open>StateHalfOpen\<close> with the counters
  reset (the observer, if any, is told), and then goes on exactly as a call on that
  half-open guard does, admission check included. A call at a time up to and including
  the deadline makes no transition and is rejected with \<open>ErrOpenState\<close>.
\<close>

theorem deadline_check_strict:
  "(state cb = StateOpen \<and> expiredAt cb < now \<longrightarrow>
      Execute cb now req later =
        (let (cb', evs, ret) =
               Execute (cb\<lparr>expiredAt := zeroTime, state := StateHalfOpen, counts := zeroCounts\<rparr>)
                 now req later
         in (cb',
             (case onStateChange cb of
                None \<Rightarrow> []
              | Some f \<Rightarrow>
                  [OnStateChangeCalled (name cb) StateOpen StateHalfOpen StateHalfOpen (counts cb)])
             @ evs, ret))) \<and>
   (state cb = StateOpen \<and> now \<le> expiredAt cb \<longrightarrow>
      Execute cb now req later = (cb, [], Returns None (Some ErrOpenState)))"
  by (simp add: Execute_open_late Execute_open_early)

theorem deadline_check_strict_witness:
  "state (trippedGuard 2) = StateOpen \<and> expiredAt (trippedGuard 2) < 16 \<and>
   15 \<le> expiredAt (trippedGuard 2) \<and>
   Execute (trippedGuard 2) 16 succeeding 20 =
     ((trippedGuard 2)\<lparr>expiredAt := zeroTime, state := StateHalfOpen,
        counts := Counts_onSuccess (Counts_onRequest zeroCounts)\<rparr>,
      [OnStateChangeCalled ''guard'' StateOpen StateHalfOpen StateHalfOpen zeroCounts, ReqCalled],
      succeeding) \<and>
   Execute (trippedGuard 2) 15 succeeding 20 = (trippedGuard 2, [], Returns None (Some ErrOpenState))"
proof -
  have s: "state (trippedGuard 2) = StateOpen" and d: "expiredAt (trippedGuard 2) = 15"
    by (simp_all add: trippedGuard_eq)
  have h: "Execute ((trippedGuard 2)\<lparr>expiredAt := zeroTime, state := StateHalfOpen,
        counts := zeroCounts\<rparr>) 16 succeeding 20 =
     ((trippedGuard 2)\<lparr>expiredAt := zeroTime, state := StateHalfOpen,
        counts := Counts_onSuccess (Counts_onRequest zeroCounts)\<rparr>, [ReqCalled], succeeding)"
    by (simp add: succeeding_def Execute_halfopen_success trippedGuard_eq NewCircuitBreaker_def
        tripConfig_def zeroCounts_def Counts_onSuccess_def Counts_onRequest_def Let_def
        word_le_nat_alt)
  from deadline_check_strict [of "trippedGuard 2" 16 succeeding 20]
    deadline_check_strict [of "trippedGuard 2" 15 succeeding 20] s d h
  show ?thesis
    by (simp add: trippedGuard_eq NewCircuitBreaker_def tripConfig_def)
qed

subsection \<open>Transitions\<close>

text \<open>
  C7, as claimed, fails in the order of its two effects: when \<^verbatim>\<open>setState\<close> moves a
  guard whose counters are \<open>{1, 0, 1, 0, 1}\<close> from closed to open, the observer is called
  while the counters still hold these values; they are zero only afterwards. The
  notification comes before the reset.
\<close>

theorem setState_order_counterexample:
  "state countedGuard \<noteq> StateOpen \<and>
   snd (setState countedGuard StateOpen) =
     [OnStateChangeCalled ''guard'' StateClosed StateOpen StateOpen
        \<lparr>Requests = 1, TotalSuccesses = 0, TotalFailures = 1,
         ConsecutiveSuccesses = 0, ConsecutiveFailures = 1\<rparr>] \<and>
   Requests (counts (fst (setState countedGuard StateOpen))) = 0"
  by (simp add: countedGuard_def setState_def NewCircuitBreaker_def tripConfig_def Let_def
      Counts_onFailure_def Counts_onRequest_def Counts_reset_def zeroCounts_def)


text \<open>
  C7, amended. Every actual transition (the new state differs from the current one)
  stores the new state, then calls the observer, if one is configured, with the name,
  the previous state and the new state, the new state being already stored and the
  counters not yet reset, and then resets all five counters to zero. Setting the state
  to its current value calls no observer and changes nothing.
\<close>

theorem setState_transition:
  "(state cb \<noteq> st \<longrightarrow>
      setState cb st =
        (cb\<lparr>state := st, counts := zeroCounts\<rparr>,
         case onStateChange cb of
           None \<Rightarrow> []
         | Some f \<Rightarrow> [OnStateChangeCalled (name cb) (state cb) st st (counts cb)])) \<and>
   (state cb = st \<longrightarrow> setState cb st = (cb, []))"
  by (simp add: setState_diff setState_same)

theorem setState_transition_witness:
  "state countedGuard \<noteq> StateOpen \<and> state countedGuard = StateClosed \<and>
   setState countedGuard StateOpen =
     (countedGuard\<lparr>state := StateOpen, counts := zeroCounts\<rparr>,
      [OnStateChangeCalled ''guard'' StateClosed StateOpen StateOpen
         (Counts_onFailure (Counts_onRequest zeroCounts))]) \<and>
   setState countedGuard StateClosed = (countedGuard, [])"
proof -
  have s: "state countedGuard = StateClosed"
    by (simp add: countedGuard_def NewCircuitBreaker_def)
  from setState_transition [of countedGuard StateOpen]
    setState_transition [of countedGuard StateClosed] s
  show ?thesis
    by (simp add: countedGuard_def NewCircuitBreaker_def tripConfig_def)
qed

subsection \<open>Outcomes of admitted calls\<close>

text \<open>
  C3. When an admitted call fails while the guard is closed, the failure is recorded in
  the counters and \<open>readyToTrip\<close> is then called on the counters so updated (the events
  are the action, then the predicate); the guard moves to \<open>StateOpen\<close>, with the deadline
  set to the clock of \<^verbatim>\<open>onFailure\<close> plus the timeout, if and only if the predicate
  returns true, and otherwise stays closed with the failure counted. In no call is the
  predicate called unless the guard was closed and the action failed: not after a
  success, not in another state, and not when the action panics.
\<close>

theorem closed_failure_trips:
  "(state cb = StateClosed \<and> err \<noteq> None \<longrightarrow>
      (let c = Counts_onFailure (Counts_onRequest (counts cb))
       in Execute cb now (Returns res err :: ('r, 'e) outcome) later =
            (if readyToTrip cb c
             then (cb\<lparr>expiredAt := later + timeout cb, state := StateOpen, counts := zeroCounts\<rparr>,
                   ReqCalled # ReadyToTripCalled c #
                     (case onStateChange cb of
                        None \<Rightarrow> []
                      | Some f \<Rightarrow> [OnStateChangeCalled (name cb) StateClosed StateOpen StateOpen c]),
                   Returns res err)
             else (cb\<lparr>counts := c\<rparr>, [ReqCalled, ReadyToTripCalled c], Returns res err)) \<and>
          (state (fst (Execute cb now (Returns res err) later)) = StateOpen \<longleftrightarrow> readyToTrip cb c))) \<and>
   (\<forall>c. ReadyToTripCalled c \<in> set (fst (snd (Execute cb now (Returns res err) later))) \<longrightarrow>
      state cb = StateClosed \<and> err \<noteq> None) \<and>
   (\<forall>c. ReadyToTripCalled c
      \<notin> set (fst (snd (Execute cb now (Panics :: ('r, 'e) outcome) later))))"
proof (intro conjI impI allI)
  assume "state cb = StateClosed \<and> err \<noteq> None"
  then show "let c = Counts_onFailure (Counts_onRequest (counts cb))
       in Execute cb now (Returns res err) later =
            (if readyToTrip cb c
             then (cb\<lparr>expiredAt := later + timeout cb, state := StateOpen, counts := zeroCounts\<rparr>,
                   ReqCalled # ReadyToTripCalled c #
                     (case onStateChange cb of
                        None \<Rightarrow> []
                      | Some f \<Rightarrow> [OnStateChangeCalled (name cb) StateClosed StateOpen StateOpen c]),
                   Returns res err)
             else (cb\<lparr>counts := c\<rparr>, [ReqCalled, ReadyToTripCalled c], Returns res err)) \<and>
          (state (fst (Execute cb now (Returns res err) later)) = StateOpen \<longleftrightarrow> readyToTrip cb c)"
    by (simp add: Execute_closed_failure Let_def)
next
  fix c
  assume "ReadyToTripCalled c \<in> set (fst (snd (Execute cb now (Returns res err) later)))"
  then show "state cb = StateClosed"
    by (rule ReadyToTripCalled_returns)
next
  fix c
  assume "ReadyToTripCalled c \<in> set (fst (snd (Execute cb now (Returns res err) later)))"
  then show "err \<noteq> None"
    by (rule ReadyToTripCalled_returns)
next
  fix c
  show "ReadyToTripCalled c \<notin> set (fst (snd (Execute cb now (Panics :: ('r, 'e) outcome) later)))"
    using ReadyToTripCalled_only(2) [of c cb now "Panics :: ('r, 'e) outcome" later]
    by auto
qed

theorem closed_failure_trips_witness:
  "state (NewCircuitBreaker (tripConfig 2)) = StateClosed \<and>
   Some (ErrOther ''service error'') \<noteq> (None :: string error option) \<and>
   ReadyToTripCalled (Counts_onFailure (Counts_onRequest zeroCounts))
     \<in> set (fst (snd (Execute (NewCircuitBreaker (tripConfig 2)) 0
                        (Returns (None :: nat option) (Some (ErrOther ''service error''))) 5))) \<and>
   state (fst (Execute (NewCircuitBreaker (tripConfig 2)) 0
                 (Returns (None :: nat option) (Some (ErrOther ''service error''))) 5)) = StateOpen \<and>
   expiredAt (fst (Execute (NewCircuitBreaker (tripConfig 2)) 0
                 (Returns (None :: nat option) (Some (ErrOther ''service error''))) 5)) = 15"
proof -
  have r: "readyToTrip (NewCircuitBreaker (tripConfig 2))
             (Counts_onFailure (Counts_onRequest (counts (NewCircuitBreaker (tripConfig 2)))))"
    by (simp add: NewCircuitBreaker_def tripConfig_def Counts_onFailure_def Counts_onRequest_def
        zeroCounts_def)
  from closed_failure_trips [where cb = "NewCircuitBreaker (tripConfig 2)" and now = 0
      and later = 5 and res = "None :: nat option" and err = "Some (ErrOther ''service error'')"] r
  show ?thesis
    by (simp add: New_fields counts_New Let_def) (simp add: NewCircuitBreaker_def tripConfig_def)
qed

text \<open>
  C4. When an admitted call fails while the guard is probing, whether it was half-open
  already with room under the cap or has just left \<open>StateOpen\<close> past its deadline,
  then for any counters the guard ends in \<open>StateOpen\<close> with the deadline set to the clock
  of \<^verbatim>\<open>onFailure\<close> plus the timeout and all counters zero; the action's outcome is
  returned and the trip predicate is not consulted.
\<close>

theorem halfopen_failure_reopens:
  "err \<noteq> None \<Longrightarrow>
   (state cb = StateHalfOpen \<and> Requests (counts cb) < requestThreshold cb) \<or>
   (state cb = StateOpen \<and> expiredAt cb < now \<and> 0 < requestThreshold cb) \<Longrightarrow>
   (case Execute cb now (Returns res err) later of
      (cb', evs, ret) \<Rightarrow>
        state cb' = StateOpen \<and> expiredAt cb' = later + timeout cb \<and> counts cb' = zeroCounts \<and>
        ret = Returns res err \<and> (\<forall>c. ReadyToTripCalled c \<notin> set evs))"
proof (elim disjE conjE)
  assume "err \<noteq> None" "state cb = StateHalfOpen" "Requests (counts cb) < requestThreshold cb"
  then show ?thesis
    by (simp add: Execute_halfopen_failure split: option.splits)
next
  let ?h = "cb\<lparr>expiredAt := zeroTime, state := StateHalfOpen, counts := zeroCounts\<rparr>"
  assume ne: "err \<noteq> None" and op: "state cb = StateOpen" "expiredAt cb < now"
    and thr: "0 < requestThreshold cb"
  have "state ?h = StateHalfOpen" and "Requests (counts ?h) < requestThreshold ?h"
    using thr by (simp_all add: zeroCounts_def)
  from Execute_halfopen_failure [OF this ne, of now res later] op show ?thesis
    by (simp add: Execute_open_late split: option.splits)
qed

theorem halfopen_failure_reopens_witness:
  "Some (ErrOther ''service error'') \<noteq> (None :: string error option) \<and>
   state (probingGuard 2) = StateHalfOpen \<and>
   Requests (counts (probingGuard 2)) < requestThreshold (probingGuard 2) \<and>
   state (fst (Execute (probingGuard 2) 17
                 (Returns (None :: nat option) (Some (ErrOther ''service error''))) 18)) = StateOpen \<and>
   expiredAt (fst (Execute (probingGuard 2) 17
                 (Returns (None :: nat option) (Some (ErrOther ''service error''))) 18)) = 28 \<and>
   counts (fst (Execute (probingGuard 2) 17
                 (Returns (None :: nat option) (Some (ErrOther ''service error''))) 18)) = zeroCounts"
proof -
  have h: "state (probingGuard 2) = StateHalfOpen"
    "Requests (counts (probingGuard 2)) < requestThreshold (probingGuard 2)"
    "timeout (probingGuard 2) = 10"
    by (simp_all add: probingGuard_eq NewCircuitBreaker_def tripConfig_def zeroCounts_def
        Counts_onSuccess_def Counts_onRequest_def)
  from halfopen_failure_reopens [where cb = "probingGuard 2" and now = 17 and later = 18
      and res = "None :: nat option" and err = "Some (ErrOther ''service error'')"] h
  show ?thesis
    by (simp add: split_beta)
qed

text \<open>
  C5. For a guard reached from \<^verbatim>\<open>NewCircuitBreaker\<close> by calls of \<^verbatim>\<open>Execute\<close>: when an
  admitted call succeeds while the guard is probing, the success is recorded, and if
  \<^verbatim>\<open>ConsecutiveSuccesses\<close> is then at least \<^verbatim>\<open>requestThreshold\<close> the guard ends closed with
  all counters zero; otherwise it stays half-open with the success counted. In both
  cases the deadline is the zero instant.
\<close>

theorem halfopen_success_recovers:
  assumes "cb = ExecuteAll (NewCircuitBreaker cfg) calls"
    and "(state cb = StateHalfOpen \<and> Requests (counts cb) < requestThreshold cb) \<or>
         (state cb = StateOpen \<and> expiredAt cb < now \<and> 0 < requestThreshold cb)"
  shows "(case Execute cb now (Returns res None) later of
            (cb', evs, ret) \<Rightarrow>
              (let c = Counts_onSuccess (Counts_onRequest
                         (if state cb = StateOpen then zeroCounts else counts cb))
               in ret = Returns res None \<and> expiredAt cb' = zeroTime \<and>
                  (if requestThreshold cb \<le> ConsecutiveSuccesses c
                   then state cb' = StateClosed \<and> counts cb' = zeroCounts
                   else state cb' = StateHalfOpen \<and> counts cb' = c)))"
  using assms(2)
proof (elim disjE conjE)
  assume h: "state cb = StateHalfOpen" "Requests (counts cb) < requestThreshold cb"
  have "deadlineOk cb"
    unfolding assms(1) by (rule deadlineOk_reachable)
  with h have "expiredAt cb = zeroTime"
    by (simp add: deadlineOk_def)
  with h show ?thesis
    by (simp add: Execute_halfopen_success Let_def)
next
  let ?h = "cb\<lparr>expiredAt := zeroTime, state := StateHalfOpen, counts := zeroCounts\<rparr>"
  assume op: "state cb = StateOpen" "expiredAt cb < now" and thr: "0 < requestThreshold cb"
  have "state ?h = StateHalfOpen" and "Requests (counts ?h) < requestThreshold ?h"
    using thr by (simp_all add: zeroCounts_def)
  then have e: "Execute ?h now (Returns res None) later =
     (let c = Counts_onSuccess (Counts_onRequest zeroCounts)
      in if requestThreshold cb \<le> ConsecutiveSuccesses c
         then (cb\<lparr>expiredAt := zeroTime, state := StateClosed, counts := zeroCounts\<rparr>,
               ReqCalled #
                 (case onStateChange cb of
                    None \<Rightarrow> []
                  | Some f \<Rightarrow> [OnStateChangeCalled (name cb) StateHalfOpen StateClosed StateClosed c]),
               Returns res None)
         else (cb\<lparr>expiredAt := zeroTime, state := StateHalfOpen, counts := c\<rparr>,
               [ReqCalled], Returns res None))"
    by (simp add: Execute_halfopen_success Let_def split: option.splits)
  show ?thesis
    unfolding Execute_open_late [OF op] e
    using op by (simp add: Let_def)
qed

theorem halfopen_success_recovers_witness:
  "probingGuard 2 =
     ExecuteAll (NewCircuitBreaker (tripConfig 2)) [(0, failing, 5), (16, succeeding, 16)] \<and>
   state (probingGuard 2) = StateHalfOpen \<and>
   Requests (counts (probingGuard 2)) < requestThreshold (probingGuard 2) \<and>
   state (fst (Execute (probingGuard 2) 17 (Returns (Some (7 :: nat)) (None :: string error option)) 17))
     = StateClosed \<and>
   counts (fst (Execute (probingGuard 2) 17 (Returns (Some (7 :: nat)) (None :: string error option)) 17))
     = zeroCounts \<and>
   expiredAt (fst (Execute (probingGuard 2) 17 (Returns (Some (7 :: nat)) (None :: string error option)) 17))
     = zeroTime"
proof -
  have h: "state (probingGuard 2) = StateHalfOpen"
    "Requests (counts (probingGuard 2)) < requestThreshold (probingGuard 2)"
    "requestThreshold (probingGuard 2) = 2"
    "counts (probingGuard 2) = Counts_onSuccess (Counts_onRequest zeroCounts)"
    by (simp_all add: probingGuard_eq NewCircuitBreaker_def tripConfig_def zeroCounts_def
        Counts_onSuccess_def Counts_onRequest_def)
  have d: "probingGuard 2 =
      ExecuteAll (NewCircuitBreaker (tripConfig 2)) [(0, failing, 5), (16, succeeding, 16)]"
    by (rule probingGuard_def)
  have a: "(state (probingGuard 2) = StateHalfOpen \<and>
        Requests (counts (probingGuard 2)) < requestThreshold (probingGuard 2)) \<or>
      (state (probingGuard 2) = StateOpen \<and> expiredAt (probingGuard 2) < 17 \<and>
        0 < requestThreshold (probingGuard 2))"
    using h by simp
  from halfopen_success_recovers [OF d a, where later = 17 and res = "Some (7 :: nat)"] h
  have c: "state (fst (Execute (probingGuard 2) 17 (Returns (Some (7 :: nat)) (None :: string error option)) 17))
      = StateClosed"
    "counts (fst (Execute (probingGuard 2) 17 (Returns (Some (7 :: nat)) (None :: string error option)) 17))
      = zeroCounts"
    "expiredAt (fst (Execute (probingGuard 2) 17 (Returns (Some (7 :: nat)) (None :: string error option)) 17))
      = zeroTime"
    by (auto simp add: split_beta Let_def zeroCounts_def Counts_onSuccess_def Counts_onRequest_def)
  show ?thesis
    by (intro conjI d h(1) h(2) c)
qed

subsection \<open>Admission and what is returned\<close>

text \<open>
  C9. Every call of \<^verbatim>\<open>Execute\<close> is of exactly one of three kinds. If the guard is open
  and the deadline has not passed, the action is not called and \<open>ErrOpenState\<close> is
  returned with a nil result. If the guard is at the half-open cap (half-open with
  \<^verbatim>\<open>Requests >= requestThreshold\<close>, or open past its deadline with a threshold of zero),
  the action is not called and \<open>ErrTooManyRequests\<close> is returned with a nil result.
  Otherwise the action is called exactly once and its result and error are returned
  unchanged (a panic of the action goes on to the caller). So no call yields both an
  outcome of the action and a rejection; and when the action does not itself return one
  of the two sentinel errors, \<^verbatim>\<open>Execute\<close> returns a sentinel exactly when the action was
  not called.
\<close>

theorem action_or_rejection:
  "(case Execute cb now req later of
      (cb', evs, ret) \<Rightarrow>
        (if state cb = StateOpen \<and> \<not> expiredAt cb < now
         then count_list evs ReqCalled = 0 \<and> ret = Returns None (Some ErrOpenState)
         else if (state cb = StateHalfOpen \<and> requestThreshold cb \<le> Requests (counts cb)) \<or>
                 (state cb = StateOpen \<and> requestThreshold cb = 0)
         then count_list evs ReqCalled = 0 \<and> ret = Returns None (Some ErrTooManyRequests)
         else count_list evs ReqCalled = 1 \<and> ret = req) \<and>
        (returnedErr req \<noteq> Some ErrOpenState \<and> returnedErr req \<noteq> Some ErrTooManyRequests \<longrightarrow>
           (returnedErr ret = Some ErrOpenState \<or> returnedErr ret = Some ErrTooManyRequests
              \<longleftrightarrow> count_list evs ReqCalled = 0)))"
proof -
  consider
    (early) "state cb = StateOpen" "\<not> expiredAt cb < now"
    | (cap) "\<not> (state cb = StateOpen \<and> \<not> expiredAt cb < now)"
        "(state cb = StateHalfOpen \<and> requestThreshold cb \<le> Requests (counts cb)) \<or>
         (state cb = StateOpen \<and> requestThreshold cb = 0)"
    | (admitted) "\<not> (state cb = StateOpen \<and> \<not> expiredAt cb < now)"
        "\<not> (state cb = StateHalfOpen \<and> requestThreshold cb \<le> Requests (counts cb))"
        "\<not> (state cb = StateOpen \<and> requestThreshold cb = 0)"
    by blast
  then show ?thesis
  proof cases
    case early
    then show ?thesis
      by (simp add: Execute_open_early)
  next
    case cap
    then have "(state cb = StateHalfOpen \<and> requestThreshold cb \<le> Requests (counts cb)) \<or>
           (state cb = StateOpen \<and> expiredAt cb < now \<and> requestThreshold cb = 0)"
      by blast
    from Execute_rejected_cap(2,3) [OF this, of req later] cap show ?thesis
      by (auto simp add: split_beta count_list_0_iff)
  next
    case admitted
    from Execute_admitted [OF this, of req later] admitted show ?thesis
      by (auto simp add: split_beta)
  qed
qed

theorem action_or_rejection_witness:
  "count_list (fst (snd (Execute (trippedGuard 2) 14 succeeding 20))) ReqCalled = 0 \<and>
   snd (snd (Execute (trippedGuard 2) 14 succeeding 20)) = Returns None (Some ErrOpenState) \<and>
   count_list (fst (snd (Execute (trippedGuard 0) 16 succeeding 20))) ReqCalled = 0 \<and>
   snd (snd (Execute (trippedGuard 0) 16 succeeding 20)) = Returns None (Some ErrTooManyRequests) \<and>
   returnedErr succeeding \<noteq> Some ErrOpenState \<and> returnedErr succeeding \<noteq> Some ErrTooManyRequests \<and>
   count_list (fst (snd (Execute (NewCircuitBreaker (tripConfig 2)) 0 succeeding 0))) ReqCalled = 1 \<and>
   snd (snd (Execute (NewCircuitBreaker (tripConfig 2)) 0 succeeding 0)) = succeeding"
proof -
  have g: "state (trippedGuard 2) = StateOpen" "expiredAt (trippedGuard 2) = 15"
    "state (trippedGuard 0) = StateOpen" "expiredAt (trippedGuard 0) = 15"
    "requestThreshold (trippedGuard 0) = 0"
    "state (NewCircuitBreaker (tripConfig 2)) = StateClosed"
    by (simp_all add: trippedGuard_eq NewCircuitBreaker_def tripConfig_def)
  from action_or_rejection [of "trippedGuard 2" 14 succeeding 20]
    action_or_rejection [of "trippedGuard 0" 16 succeeding 20]
    action_or_rejection [of "NewCircuitBreaker (tripConfig 2)" 0 succeeding 0] g
  show ?thesis
    by (auto simp add: split_beta succeeding_def)
qed

subsection \<open>The threshold\<close>

text \<open>
  C8. For a guard constructed with \<^verbatim>\<open>RequestThreshold\<close> 0: once a sequence of calls has
  left it in \<open>StateOpen\<close>, every later call is rejected with \<open>ErrOpenState\<close> or
  \<open>ErrTooManyRequests\<close> and a nil result, the action is not called again, and the guard
  is never closed again.
\<close>

theorem zero_threshold_lockout:
  assumes "RequestThreshold cfg = 0"
    and "state (ExecuteAll (NewCircuitBreaker cfg) pre) = StateOpen"
  shows "\<forall>(cb', evs, ret) \<in> set (ExecuteLog (ExecuteAll (NewCircuitBreaker cfg) pre) post).
           state cb' \<noteq> StateClosed \<and> ReqCalled \<notin> set evs \<and>
           (ret = Returns None (Some ErrOpenState) \<or> ret = Returns None (Some ErrTooManyRequests))"
proof (rule ExecuteLog_invariant
    [where P = "\<lambda>cb. requestThreshold cb = 0 \<and> state cb \<noteq> StateClosed"])
  show "requestThreshold (ExecuteAll (NewCircuitBreaker cfg) pre) = 0 \<and>
      state (ExecuteAll (NewCircuitBreaker cfg) pre) \<noteq> StateClosed"
    using assms by (simp add: ExecuteAll_requestThreshold New_fields)
next
  fix cb :: CircuitBreaker and now later and req :: "('c, 'd) outcome"
  assume "requestThreshold cb = 0 \<and> state cb \<noteq> StateClosed"
  then show "requestThreshold (fst (Execute cb now req later)) = 0 \<and>
      state (fst (Execute cb now req later)) \<noteq> StateClosed"
    by (simp add: lockout_step)
next
  fix cb :: CircuitBreaker and now later and req :: "('c, 'd) outcome"
  assume "requestThreshold cb = 0 \<and> state cb \<noteq> StateClosed"
  then have "requestThreshold cb = 0" and "state cb \<noteq> StateClosed"
    by simp_all
  from lockout_step [OF this, of now req later]
  show "case Execute cb now req later of
      (cb', evs, ret) \<Rightarrow>
        state cb' \<noteq> StateClosed \<and> ReqCalled \<notin> set evs \<and>
        (ret = Returns None (Some ErrOpenState) \<or> ret = Returns None (Some ErrTooManyRequests))"
    by (simp add: split_beta)
qed

theorem zero_threshold_lockout_witness:
  "RequestThreshold (tripConfig 0) = 0 \<and>
   state (ExecuteAll (NewCircuitBreaker (tripConfig 0)) [(0, failing, 5)]) = StateOpen \<and>
   state (fst (last (ExecuteLog
      (ExecuteAll (NewCircuitBreaker (tripConfig 0)) [(0, failing, 5)]) exampleCalls)))
     \<noteq> StateClosed \<and>
   ReqCalled \<notin> set (fst (snd (last (ExecuteLog
      (ExecuteAll (NewCircuitBreaker (tripConfig 0)) [(0, failing, 5)]) exampleCalls)))) \<and>
   (snd (snd (last (ExecuteLog
      (ExecuteAll (NewCircuitBreaker (tripConfig 0)) [(0, failing, 5)]) exampleCalls)))
      = Returns None (Some ErrOpenState) \<or>
    snd (snd (last (ExecuteLog
      (ExecuteAll (NewCircuitBreaker (tripConfig 0)) [(0, failing, 5)]) exampleCalls)))
      = Returns None (Some ErrTooManyRequests))"
proof -
  have a: "RequestThreshold (tripConfig 0) = 0"
    by (simp add: tripConfig_def)
  have "state (trippedGuard 0) = StateOpen"
    by (simp add: trippedGuard_eq)
  then have b: "state (ExecuteAll (NewCircuitBreaker (tripConfig 0)) [(0, failing, 5)]) = StateOpen"
    unfolding trippedGuard_def .
  have "ExecuteLog (trippedGuard 0) exampleCalls \<noteq> []"
    by (simp add: exampleCalls_def)
  then have "last (ExecuteLog (trippedGuard 0) exampleCalls)
      \<in> set (ExecuteLog (trippedGuard 0) exampleCalls)"
    by (rule last_in_set)
  then have l: "last (ExecuteLog
        (ExecuteAll (NewCircuitBreaker (tripConfig 0)) [(0, failing, 5)]) exampleCalls)
      \<in> set (ExecuteLog
        (ExecuteAll (NewCircuitBreaker (tripConfig 0)) [(0, failing, 5)]) exampleCalls)"
    unfolding trippedGuard_def .
  from zero_threshold_lockout [OF a b, of exampleCalls] l
  have "case last (ExecuteLog
        (ExecuteAll (NewCircuitBreaker (tripConfig 0)) [(0, failing, 5)]) exampleCalls) of
      (cb', evs, ret) \<Rightarrow>
        state cb' \<noteq> StateClosed \<and> ReqCalled \<notin> set evs \<and>
        (ret = Returns None (Some ErrOpenState) \<or> ret = Returns None (Some ErrTooManyRequests))"
    by (rule bspec)
  with a b show ?thesis
    by (simp only: split_beta simp_thms)
qed




end
